theory Spec2Isabelle
  imports Main
begin

section \<open>Python values\<close>

text \<open>
  A Python \<open>str\<close> is a sequence of Unicode code points, and \<open>len\<close> counts code points;
  a string is therefore a list of code points, not of bytes. \<open>lit\<close> embeds an ASCII
  literal.
\<close>

type_synonym pychar = nat
type_synonym pystr = "pychar list"

definition lit :: "string \<Rightarrow> pystr" where
  "lit s = map of_char s"

text \<open>
  What \<open>response.json()\<close> can return. A JSON object is held as the items of the parsed
  \<open>dict\<close> (keys are distinct there). JSON numbers with a fraction or an exponent parse
  to Python floats; floats are not part of this model.
\<close>

datatype json =
    JNull
  | JBool bool
  | JInt int
  | JStr pystr
  | JArr "json list"
  | JObj "(pystr \<times> json) list"

text \<open>
  The exceptions the two functions can meet. \<open>NoDataError\<close> stands for the
  \<open>DatabaseError\<close> (\<open>no such table: users\<close>) that \<open>pd.read_sql_query\<close> raises.
\<close>

datatype exn =
    ConnectionError
  | JSONDecodeError
  | TypeError
  | AttributeError
  | ProgrammingError
  | OverflowError
  | UnicodeEncodeError
  | DatatypeMismatch
  | DatabaseFull
  | IndexError
  | NoDataError

text \<open>
  \<open>fetch_and_store_data\<close> raises nothing: both failure paths call \<open>st.error\<close> and
  return \<open>None\<close>. \<open>RemoteFetchError c\<close> is the path of line 105, whose message carries
  the status code; \<open>PipelineError e\<close> is the \<open>except Exception as e\<close> path of line 140.
\<close>

datatype error =
    RemoteFetchError int
  | PipelineError exn

definition and_then :: "'e + 'a \<Rightarrow> ('a \<Rightarrow> 'e + 'b) \<Rightarrow> 'e + 'b" where
  "and_then m f = (case m of Inl e \<Rightarrow> Inl e | Inr x \<Rightarrow> f x)"

text \<open>Evaluation from left to right, stopping at the first exception.\<close>

fun each :: "('a \<Rightarrow> 'e + 'b) \<Rightarrow> 'a list \<Rightarrow> 'e + 'b list" where
  "each f [] = Inr []"
| "each f (x # xs) = and_then (f x) (\<lambda>y. and_then (each f xs) (\<lambda>ys. Inr (y # ys)))"

text \<open>\<open>u.get(k)\<close>: only a \<open>dict\<close> has the method; a missing key gives \<open>None\<close>.\<close>

definition dict_get :: "(pystr \<times> json) list \<Rightarrow> pystr \<Rightarrow> json" where
  "dict_get kvs k = (case map_of kvs k of None \<Rightarrow> JNull | Some v \<Rightarrow> v)"

fun py_get :: "json \<Rightarrow> pystr \<Rightarrow> exn + json" where
  "py_get (JObj kvs) k = Inr (dict_get kvs k)"
| "py_get _ k = Inl AttributeError"

text \<open>\<open>for u in users\<close>: a list gives its elements, a dict its keys, a string its characters.\<close>

fun py_iter :: "json \<Rightarrow> exn + json list" where
  "py_iter (JArr xs) = Inr xs"
| "py_iter (JObj kvs) = Inr (map (\<lambda>kv. JStr (fst kv)) kvs)"
| "py_iter (JStr s) = Inr (map (\<lambda>c. JStr [c]) s)"
| "py_iter _ = Inl TypeError"

fun py_len :: "json \<Rightarrow> exn + nat" where
  "py_len (JArr xs) = Inr (length xs)"
| "py_len (JObj kvs) = Inr (length kvs)"
| "py_len (JStr s) = Inr (length s)"
| "py_len _ = Inl TypeError"

section \<open>The store\<close>

text \<open>
  One row of \<open>users(id INTEGER PRIMARY KEY, name TEXT, username TEXT, email TEXT,
  phone TEXT, website TEXT)\<close>. The primary key is never \<open>NULL\<close>; a \<open>TEXT\<close> column is.
\<close>

record user =
  user_id :: int
  name :: "pystr option"
  username :: "pystr option"
  email :: "pystr option"
  phone :: "pystr option"
  website :: "pystr option"

text \<open>
  The state of the database file, as far as the program looks at it: the table \<open>users\<close>
  is absent (\<open>None\<close>) or holds rows, kept in ascending \<open>id\<close>, the order in which
  \<open>SELECT * FROM users\<close> walks the table.
\<close>

type_synonym db = "user list option"

text \<open>
  Behaviour of the libraries under the program that the repository does not define:
  the Unicode case mapping of \<open>str.lower\<close> outside ASCII, SQLite's conversion of a text
  value offered for the \<open>INTEGER PRIMARY KEY\<close> column (\<open>None\<close>: \<open>datatype mismatch\<close>), and
  the key SQLite picks at random when the largest key is already \<open>2^63 - 1\<close> (\<open>None\<close>:
  none found); and \<open>os.linesep\<close>, the line terminator of the operating system.
\<close>

record platform =
  unicode_lower :: "pystr \<Rightarrow> pystr"
  rowid_of_text :: "pystr \<Rightarrow> int option"
  random_rowid :: "int list \<Rightarrow> int option"
  linesep :: pystr

datatype sqlval = SqlNull | SqlInteger int | SqlText pystr

text \<open>
  Binding one Python value to a \<open>?\<close> of the statement: \<open>None\<close> is \<open>NULL\<close>; an \<open>int\<close>
  (and a \<open>bool\<close>, its subclass) must fit 64 bits; a \<open>str\<close> is encoded to UTF-8, which
  refuses surrogate code points; a \<open>list\<close> or \<open>dict\<close> is not supported.
\<close>

definition utf8_encodable :: "pystr \<Rightarrow> bool" where
  "utf8_encodable s = list_all (\<lambda>c. c < 0xD800 \<or> (0xDFFF < c \<and> c < 0x110000)) s"

definition int64 :: "int \<Rightarrow> bool" where
  "int64 i = (- (2 ^ 63) \<le> i \<and> i < 2 ^ 63)"

fun bind_param :: "json \<Rightarrow> exn + sqlval" where
  "bind_param JNull = Inr SqlNull"
| "bind_param (JBool b) = Inr (SqlInteger (if b then 1 else 0))"
| "bind_param (JInt i) = (if int64 i then Inr (SqlInteger i) else Inl OverflowError)"
| "bind_param (JStr s) = (if utf8_encodable s then Inr (SqlText s) else Inl UnicodeEncodeError)"
| "bind_param (JArr xs) = Inl ProgrammingError"
| "bind_param (JObj kvs) = Inl ProgrammingError"

text \<open>Decimal text of an integer, as SQLite stores a number in a \<open>TEXT\<close> column.\<close>

fun digits :: "nat \<Rightarrow> pystr" where
  "digits n = (if n < 10 then [48 + n] else digits (n div 10) @ [48 + n mod 10])"

declare digits.simps [simp del]

definition decimal :: "int \<Rightarrow> pystr" where
  "decimal i = (if i < 0 then 45 # digits (nat (- i)) else digits (nat i))"

fun text_column :: "sqlval \<Rightarrow> pystr option" where
  "text_column SqlNull = None"
| "text_column (SqlInteger i) = Some (decimal i)"
| "text_column (SqlText s) = Some s"

fun max_rowid :: "user list \<Rightarrow> int option" where
  "max_rowid [] = None"
| "max_rowid (r # rs) =
     Some (case max_rowid rs of None \<Rightarrow> user_id r | Some m \<Rightarrow> max (user_id r) m)"

text \<open>
  The value of the \<open>INTEGER PRIMARY KEY\<close> column: \<open>NULL\<close> asks SQLite for a new key, one
  more than the largest in use (1 in an empty table).
\<close>

fun rowid_column :: "platform \<Rightarrow> user list \<Rightarrow> sqlval \<Rightarrow> exn + int" where
  "rowid_column P t (SqlInteger i) = Inr i"
| "rowid_column P t (SqlText s) =
     (case rowid_of_text P s of None \<Rightarrow> Inl DatatypeMismatch | Some i \<Rightarrow> Inr i)"
| "rowid_column P t SqlNull =
     (case max_rowid t of
        None \<Rightarrow> Inr 1
      | Some m \<Rightarrow>
          if m < 2 ^ 63 - 1 then Inr (m + 1)
          else (case random_rowid P (map user_id t) of
                  None \<Rightarrow> Inl DatabaseFull
                | Some k \<Rightarrow> Inr k))"

text \<open>\<open>INSERT OR REPLACE\<close>: a row with the same key is replaced by the new one.\<close>

fun insert_or_replace :: "user \<Rightarrow> user list \<Rightarrow> user list" where
  "insert_or_replace r [] = [r]"
| "insert_or_replace r (x # t) =
     (if user_id r = user_id x then r # t
      else if user_id r < user_id x then r # x # t
      else x # insert_or_replace r t)"

definition columns :: "pystr list" where
  "columns = [lit ''id'', lit ''name'', lit ''username'', lit ''email'', lit ''phone'',
              lit ''website'']"

fun execute_insert :: "platform \<Rightarrow> user list \<Rightarrow> sqlval list \<Rightarrow> exn + user list" where
  "execute_insert P t [i, n, un, e, p, w] =
     and_then (rowid_column P t i) (\<lambda>k.
       Inr (insert_or_replace
              \<lparr>user_id = k, name = text_column n, username = text_column un,
               email = text_column e, phone = text_column p, website = text_column w\<rparr> t))"
| "execute_insert P t _ = Inl ProgrammingError"

text \<open>The body of the loop of lines 126 to 133, for one \<open>u\<close>.\<close>

definition insert_user :: "platform \<Rightarrow> user list \<Rightarrow> json \<Rightarrow> exn + user list" where
  "insert_user P t u =
     and_then (each (py_get u) columns) (\<lambda>vals.
     and_then (each bind_param vals) (\<lambda>params.
       execute_insert P t params))"

fun insert_users :: "platform \<Rightarrow> user list \<Rightarrow> json list \<Rightarrow> exn + user list" where
  "insert_users P t [] = Inr t"
| "insert_users P t (u # us) = and_then (insert_user P t u) (\<lambda>t'. insert_users P t' us)"

section \<open>The refresh pipeline\<close>

text \<open>
  The answer of \<open>requests.get\<close>: the status code and what \<open>response.json()\<close> makes of the
  body (\<open>None\<close>: it raises). No answer at all (\<open>None\<close> below) is an exception of
  \<open>requests.get\<close> itself.
\<close>

record response =
  status_code :: int
  json_body :: "json option"

text \<open>
  \<open>fetch_and_store_data\<close>, lines 100 to 141, without its \<open>st.cache_data\<close> decorator: what
  one execution of the body returns and the database it leaves. \<open>DROP TABLE\<close> and
  \<open>CREATE TABLE\<close> take effect at once; the inserted rows belong to a transaction that
  \<open>conn.commit()\<close> ends, so an exception inside the loop leaves the new, empty table.
\<close>

definition fetch_and_store_data ::
  "platform \<Rightarrow> response option \<Rightarrow> db \<Rightarrow> (error + nat) \<times> db" where
  "fetch_and_store_data P net d =
     (case net of
        None \<Rightarrow> (Inl (PipelineError ConnectionError), d)
      | Some resp \<Rightarrow>
          if status_code resp \<noteq> 200 then (Inl (RemoteFetchError (status_code resp)), d)
          else (case json_body resp of
                  None \<Rightarrow> (Inl (PipelineError JSONDecodeError), d)
                | Some users \<Rightarrow>
                    (case and_then (py_iter users) (insert_users P []) of
                       Inl e \<Rightarrow> (Inl (PipelineError e), Some [])
                     | Inr t \<Rightarrow>
                         (case py_len users of
                            Inl e \<Rightarrow> (Inl (PipelineError e), Some t)
                          | Inr n \<Rightarrow> (Inr n, Some t)))))"

section \<open>The materialized view\<close>

text \<open>A row of the data frame that \<open>load_data\<close> returns: the stored row and two more columns.\<close>

record view_row = user +
  name_length :: nat
  email_domain :: "pystr option"

text \<open>\<open>astype(str)\<close> on a column of strings and \<open>None\<close>: \<open>str(None)\<close> is \<open>'None'\<close>.\<close>

fun astype_str :: "pystr option \<Rightarrow> pystr" where
  "astype_str None = lit ''None''"
| "astype_str (Some s) = s"

text \<open>\<open>x.split(c)\<close> for a separator of one character.\<close>

fun py_split :: "pychar \<Rightarrow> pystr \<Rightarrow> pystr list" where
  "py_split c [] = [[]]"
| "py_split c (x # xs) =
     (if x = c then [] # py_split c xs
      else (case py_split c xs of [] \<Rightarrow> [[x]] | p # ps \<Rightarrow> (x # p) # ps))"

text \<open>\<open>xs[-1]\<close>.\<close>

fun py_last :: "'a list \<Rightarrow> exn + 'a" where
  "py_last [] = Inl IndexError"
| "py_last xs = Inr (last xs)"

definition ascii_lower :: "pychar \<Rightarrow> pychar" where
  "ascii_lower c = (if 65 \<le> c \<and> c \<le> 90 then c + 32 else c)"

definition py_lower :: "platform \<Rightarrow> pystr \<Rightarrow> pystr" where
  "py_lower P s = (if list_all (\<lambda>c. c < 128) s then map ascii_lower s else unicode_lower P s)"

text \<open>Line 153: \<open>lambda x: x.split('@')[-1].lower() if '@' in str(x) else None\<close>.\<close>

definition domain_of :: "platform \<Rightarrow> pystr \<Rightarrow> exn + pystr option" where
  "domain_of P x =
     (if 64 \<in> set x
      then and_then (py_last (py_split 64 x)) (\<lambda>d. Inr (Some (py_lower P d)))
      else Inr None)"

definition derive :: "platform \<Rightarrow> user \<Rightarrow> exn + view_row" where
  "derive P r =
     and_then (domain_of P (astype_str (email r))) (\<lambda>dom.
       Inr (user.extend r
              \<lparr>name_length = length (astype_str (name r)), email_domain = dom\<rparr>))"

text \<open>
  \<open>load_data\<close>, lines 145 to 156, without its decorator: the result, or the exception
  raised, and the database afterwards.
\<close>

definition load_data :: "platform \<Rightarrow> db \<Rightarrow> (exn + view_row list) \<times> db" where
  "load_data P d =
     (case d of
        None \<Rightarrow> (Inl NoDataError, d)
      | Some t \<Rightarrow> (each (derive P) t, d))"

text \<open>
  What \<open>derive\<close> computes; it raises nothing, since \<open>split\<close> never returns an empty
  list (lemma \<open>derive_eq\<close>).
\<close>

definition view :: "platform \<Rightarrow> user \<Rightarrow> view_row" where
  "view P r =
     user.extend r
       \<lparr>name_length = length (astype_str (name r)),
        email_domain =
          (if 64 \<in> set (astype_str (email r))
           then Some (py_lower P (last (py_split 64 (astype_str (email r)))))
           else None)\<rparr>"






section \<open>The export\<close>

text \<open>
  Line 349, \<open>df.to_csv(index=False)\<close>: a header line and one line for each row, all
  columns, fields separated by commas, lines ended by \<open>os.linesep\<close>. A missing value is
  written as the empty field. A field that contains a comma (44), a double quote (34), a
  line feed (10) or a carriage return (13) is put in double quotes, with every double
  quote inside it doubled; a line that is a single empty field is written as two double quotes.
\<close>

fun na_rep :: "pystr option \<Rightarrow> pystr" where
  "na_rep None = []"
| "na_rep (Some s) = s"

definition special :: "pychar \<Rightarrow> bool" where
  "special c = (c = 44 \<or> c = 34 \<or> c = 10 \<or> c = 13)"

fun double_quotes :: "pystr \<Rightarrow> pystr" where
  "double_quotes [] = []"
| "double_quotes (c # cs) = (if c = 34 then 34 # 34 # double_quotes cs else c # double_quotes cs)"

definition csv_field :: "pystr \<Rightarrow> pystr" where
  "csv_field s = (if list_ex special s then 34 # double_quotes s @ [34] else s)"

fun csv_fields :: "pystr list \<Rightarrow> pystr" where
  "csv_fields [] = []"
| "csv_fields [f] = csv_field f"
| "csv_fields (f # fs) = csv_field f @ 44 # csv_fields fs"

definition csv_row :: "pystr \<Rightarrow> pystr list \<Rightarrow> pystr" where
  "csv_row nl fs = (if fs = [[]] then [34, 34] else csv_fields fs) @ nl"

definition header :: "pystr list" where
  "header = columns @ [lit ''name_length'', lit ''email_domain'']"

definition cells :: "view_row \<Rightarrow> pystr list" where
  "cells r =
     [decimal (user_id r), na_rep (name r), na_rep (username r), na_rep (email r),
      na_rep (phone r), na_rep (website r), decimal (int (name_length r)),
      na_rep (email_domain r)]"

definition to_csv :: "platform \<Rightarrow> view_row list \<Rightarrow> pystr" where
  "to_csv P v = concat (map (csv_row (linesep P)) (header # map cells v))"

section \<open>Reading the export back\<close>

text \<open>
  Modelled from the spec: the re-parsing of the exported text, which the repository does
  not contain (it only exports). The specification names no reader, so this is the plain
  reader of comma-separated text in the dialect of the export: fields separated by commas;
  a field that starts with a double quote runs to the closing double quote, a doubled
  double quote inside it standing for one; a record ends at a line feed or carriage
  return outside quotes; empty lines are skipped. Every field is read as text: nothing is
  taken for a number or for a missing value. \<open>read_tuple\<close> then reads the two integer
  columns of a record and keeps \<open>id\<close>, \<open>name\<close>, \<open>email\<close>, \<open>name_length\<close> and \<open>email_domain\<close>.
\<close>

datatype rstate = RecordStart | FieldStart | InField | InQuoted | QuoteSeen

definition line_break :: "pychar \<Rightarrow> bool" where
  "line_break c = (c = 10 \<or> c = 13)"

fun reader :: "rstate \<Rightarrow> pystr \<Rightarrow> pystr list \<Rightarrow> pystr \<Rightarrow> pystr list list" where
  "reader RecordStart cur row [] = []"
| "reader InQuoted cur row [] = [row @ [cur]]"
| "reader QuoteSeen cur row [] = [row @ [cur]]"
| "reader InField cur row [] = [row @ [cur]]"
| "reader FieldStart cur row [] = [row @ [[]]]"
| "reader RecordStart cur row (c # cs) =
     (if line_break c then reader RecordStart [] [] cs
      else if c = 34 then reader InQuoted [] [] cs
      else if c = 44 then reader FieldStart [] [[]] cs
      else reader InField [c] [] cs)"
| "reader FieldStart cur row (c # cs) =
     (if line_break c then (row @ [[]]) # reader RecordStart [] [] cs
      else if c = 34 then reader InQuoted [] row cs
      else if c = 44 then reader FieldStart [] (row @ [[]]) cs
      else reader InField [c] row cs)"
| "reader InField cur row (c # cs) =
     (if line_break c then (row @ [cur]) # reader RecordStart [] [] cs
      else if c = 44 then reader FieldStart [] (row @ [cur]) cs
      else reader InField (cur @ [c]) row cs)"
| "reader InQuoted cur row (c # cs) =
     (if c = 34 then reader QuoteSeen cur row cs else reader InQuoted (cur @ [c]) row cs)"
| "reader QuoteSeen cur row (c # cs) =
     (if c = 34 then reader InQuoted (cur @ [34]) row cs
      else if c = 44 then reader FieldStart [] (row @ [cur]) cs
      else if line_break c then (row @ [cur]) # reader RecordStart [] [] cs
      else reader InField (cur @ [c]) row cs)"

definition read_csv :: "pystr \<Rightarrow> pystr list list" where
  "read_csv text = reader RecordStart [] [] text"

definition digit :: "pychar \<Rightarrow> bool" where
  "digit c = (48 \<le> c \<and> c \<le> 57)"

fun read_nat :: "nat \<Rightarrow> pystr \<Rightarrow> nat option" where
  "read_nat a [] = Some a"
| "read_nat a (c # cs) = (if digit c then read_nat (10 * a + (c - 48)) cs else None)"

definition read_int :: "pystr \<Rightarrow> int option" where
  "read_int s =
     (case s of
        [] \<Rightarrow> None
      | c # cs \<Rightarrow>
          if c = 45 then (if cs = [] then None else map_option (\<lambda>n. - int n) (read_nat 0 cs))
          else map_option int (read_nat 0 s))"

fun read_tuple :: "pystr list \<Rightarrow> (int \<times> pystr \<times> pystr \<times> int \<times> pystr) option" where
  "read_tuple [i, n, un, e, p, w, l, d] =
     (case (read_int i, read_int l) of
        (Some a, Some b) \<Rightarrow> Some (a, n, e, b, d)
      | _ \<Rightarrow> None)"
| "read_tuple _ = None"

section \<open>The data model of the specification\<close>

text \<open>
  A well-formed User record: a JSON object whose \<open>id\<close> is an integer that SQLite's
  \<open>INTEGER\<close> can hold, and whose \<open>name\<close>, \<open>username\<close>, \<open>email\<close>, \<open>phone\<close> and
  \<open>website\<close> are each a string of Unicode text, \<open>null\<close> or absent.
\<close>

fun is_id :: "json \<Rightarrow> bool" where
  "is_id (JInt i) = int64 i"
| "is_id _ = False"

fun is_text :: "json \<Rightarrow> bool" where
  "is_text JNull = True"
| "is_text (JStr s) = utf8_encodable s"
| "is_text _ = False"

fun well_formed :: "json \<Rightarrow> bool" where
  "well_formed (JObj kvs) =
     (is_id (dict_get kvs (lit ''id'')) \<and> list_all (\<lambda>k. is_text (dict_get kvs k)) (tl columns))"
| "well_formed _ = False"

text \<open>The row that has the fields of a well-formed record, field for field.\<close>

fun int_of :: "json \<Rightarrow> int" where
  "int_of (JInt i) = i"
| "int_of _ = 0"

fun text_of :: "json \<Rightarrow> pystr option" where
  "text_of (JStr s) = Some s"
| "text_of _ = None"

fun row_of :: "json \<Rightarrow> user" where
  "row_of (JObj kvs) =
     \<lparr>user_id = int_of (dict_get kvs (lit ''id'')),
      name = text_of (dict_get kvs (lit ''name'')),
      username = text_of (dict_get kvs (lit ''username'')),
      email = text_of (dict_get kvs (lit ''email'')),
      phone = text_of (dict_get kvs (lit ''phone'')),
      website = text_of (dict_get kvs (lit ''website''))\<rparr>"
| "row_of _ =
     \<lparr>user_id = 0, name = None, username = None, email = None, phone = None, website = None\<rparr>"

text \<open>The rows of a table by their key.\<close>

abbreviation by_id :: "user list \<Rightarrow> int \<rightharpoonup> user" where
  "by_id t \<equiv> map_of (map (\<lambda>r. (user_id r, r)) t)"

text \<open>A response with status 200 whose body parses to the given value.\<close>

abbreviation ok :: "json \<Rightarrow> response option" where
  "ok body \<equiv> Some \<lparr>status_code = 200, json_body = Some body\<rparr>"

section \<open>Sample data\<close>

text \<open>A platform, three fetched records and three stored rows, for the concrete instances.\<close>

definition sample_platform :: platform where
  "sample_platform =
     \<lparr>unicode_lower = (\<lambda>s. s), rowid_of_text = (\<lambda>s. None), random_rowid = (\<lambda>ks. None),
      linesep = [10]\<rparr>"

definition leanne :: json where
  "leanne =
     JObj [(lit ''id'', JInt 1), (lit ''name'', JStr (lit ''Leanne Graham'')),
           (lit ''username'', JStr (lit ''Bret'')), (lit ''email'', JStr (lit ''a.b@Example.COM'')),
           (lit ''phone'', JNull)]"

definition ervin :: json where
  "ervin =
     JObj [(lit ''id'', JInt 2), (lit ''name'', JStr (lit ''Ervin Howell'')),
           (lit ''email'', JStr (lit ''user@''))]"

definition ervin_again :: json where
  "ervin_again = JObj [(lit ''id'', JInt 2), (lit ''name'', JStr (lit ''E. Howell''))]"

definition leanne_row :: user where
  "leanne_row =
     \<lparr>user_id = 1, name = Some (lit ''Leanne Graham''), username = Some (lit ''Bret''),
      email = Some (lit ''a.b@Example.COM''), phone = None, website = None\<rparr>"

definition ervin_row :: user where
  "ervin_row =
     \<lparr>user_id = 2, name = Some (lit ''Ervin Howell''), username = None,
      email = Some (lit ''user@''), phone = None, website = None\<rparr>"

definition nameless_row :: user where
  "nameless_row =
     \<lparr>user_id = 3, name = None, username = None, email = None, phone = None, website = None\<rparr>"

section \<open>Auxiliary facts\<close>

lemma and_then_Inr [simp]: "and_then (Inr x) f = f x"
  by (simp add: and_then_def)

lemma and_then_Inl [simp]: "and_then (Inl e) f = Inl e"
  by (simp add: and_then_def)

lemma each_map: "(\<And>x. x \<in> set xs \<Longrightarrow> f x = Inr (g x)) \<Longrightarrow> each f xs = Inr (map g xs)"
  by (induction xs) simp_all

lemma py_split_not_Nil: "py_split c s \<noteq> []"
  by (induction s) (auto split: list.splits)

lemma py_split_no_sep: "c \<notin> set s \<Longrightarrow> py_split c s = [s]"
  by (induction s) auto

lemma length_py_split: "length (py_split c s) = Suc (length (filter (\<lambda>x. x = c) s))"
  by (induction s) (auto split: list.splits simp: py_split_not_Nil)

lemma py_split_two:
  assumes "c \<in> set s"
  obtains p q qs where "py_split c s = p # q # qs"
proof -
  from assms have "filter (\<lambda>x. x = c) s \<noteq> []"
    by (simp add: filter_empty_conv)
  then have "2 \<le> length (py_split c s)"
    by (cases "filter (\<lambda>x. x = c) s") (simp_all add: length_py_split)
  then show thesis
    using that by (cases "py_split c s" rule: list.exhaust; cases "tl (py_split c s)") auto
qed

lemma last_py_split_Cons:
  "last (py_split c (x # xs)) = (if x \<noteq> c \<and> c \<notin> set xs then x # xs else last (py_split c xs))"
proof (cases "c \<in> set xs")
  case False
  then show ?thesis by (simp add: py_split_no_sep)
next
  case True
  then obtain p q qs where "py_split c xs = p # q # qs"
    by (rule py_split_two)
  then show ?thesis using True by simp
qed

lemma last_py_split: "c \<notin> set suf \<Longrightarrow> last (py_split c (pre @ c # suf)) = suf"
  by (induction pre) (simp_all add: last_py_split_Cons py_split_no_sep del: py_split.simps)

lemma py_last_split: "py_last (py_split c s) = Inr (last (py_split c s))"
  by (cases "py_split c s") (simp_all add: py_split_not_Nil)

lemma domain_of_eq:
  "domain_of P x = Inr (if 64 \<in> set x then Some (py_lower P (last (py_split 64 x))) else None)"
  by (simp add: domain_of_def py_last_split)

lemma derive_eq: "derive P r = Inr (view P r)"
  by (simp add: derive_def domain_of_eq view_def)

lemma load_data_Some: "load_data P (Some t) = (Inr (map (view P) t), Some t)"
  by (simp add: load_data_def each_map derive_eq)

lemma at_notin_None: "64 \<notin> set (lit ''None'')"
  by (simp add: lit_def)

lemma view_fields:
  "name (view P r) = name r" "email (view P r) = email r" "user_id (view P r) = user_id r"
  "name_length (view P r) = length (astype_str (name r))"
  by (simp_all add: view_def user.defs)

lemma view_domain_None: "email r = None \<Longrightarrow> email_domain (view P r) = None"
  by (simp add: view_def user.defs at_notin_None)

lemma view_domain_Some:
  "email r = Some e \<Longrightarrow> email_domain (view P r) =
     (if 64 \<in> set e then Some (py_lower P (last (py_split 64 e))) else None)"
  by (simp add: view_def user.defs)

lemma bind_id: "is_id v \<Longrightarrow> bind_param v = Inr (SqlInteger (int_of v))"
  by (cases v) simp_all

lemma bind_text: "is_text v \<Longrightarrow> \<exists>b. bind_param v = Inr b \<and> text_column b = text_of v"
  by (cases v) simp_all

lemma insert_user_well_formed:
  assumes "well_formed u"
  shows "insert_user P t u = Inr (insert_or_replace (row_of u) t)"
proof -
  from assms obtain kvs where u: "u = JObj kvs"
    by (cases u) simp_all
  let ?g = "dict_get kvs"
  from assms u have i: "bind_param (?g (lit ''id'')) = Inr (SqlInteger (int_of (?g (lit ''id''))))"
    by (simp add: bind_id)
  from assms u have tx: "is_text (?g (lit ''name''))" "is_text (?g (lit ''username''))"
    "is_text (?g (lit ''email''))" "is_text (?g (lit ''phone''))" "is_text (?g (lit ''website''))"
    by (simp_all add: columns_def)
  from tx(1) obtain b1 where b1: "bind_param (?g (lit ''name'')) = Inr b1"
    "text_column b1 = text_of (?g (lit ''name''))" using bind_text by blast
  from tx(2) obtain b2 where b2: "bind_param (?g (lit ''username'')) = Inr b2"
    "text_column b2 = text_of (?g (lit ''username''))" using bind_text by blast
  from tx(3) obtain b3 where b3: "bind_param (?g (lit ''email'')) = Inr b3"
    "text_column b3 = text_of (?g (lit ''email''))" using bind_text by blast
  from tx(4) obtain b4 where b4: "bind_param (?g (lit ''phone'')) = Inr b4"
    "text_column b4 = text_of (?g (lit ''phone''))" using bind_text by blast
  from tx(5) obtain b5 where b5: "bind_param (?g (lit ''website'')) = Inr b5"
    "text_column b5 = text_of (?g (lit ''website''))" using bind_text by blast
  have "each (py_get u) columns = Inr (map ?g columns)"
    by (rule each_map) (simp add: u)
  moreover have "each bind_param (map ?g columns) =
      Inr [SqlInteger (int_of (?g (lit ''id''))), b1, b2, b3, b4, b5]"
    by (simp add: columns_def i b1 b2 b3 b4 b5)
  ultimately show ?thesis
    by (simp add: insert_user_def u b1 b2 b3 b4 b5)
qed

lemma insert_users_well_formed:
  "list_all well_formed us \<Longrightarrow>
   insert_users P t us = Inr (foldl (\<lambda>t u. insert_or_replace (row_of u) t) t us)"
  by (induction us arbitrary: t) (simp_all add: insert_user_well_formed)

lemma ids_insert_or_replace:
  "set (map user_id (insert_or_replace r t)) = insert (user_id r) (set (map user_id t))"
  by (induction t) auto

lemma sorted_insert_or_replace:
  "sorted_wrt (<) (map user_id t) \<Longrightarrow> sorted_wrt (<) (map user_id (insert_or_replace r t))"
proof (induction t)
  case Nil
  then show ?case by simp
next
  case (Cons x t)
  have "set (map user_id (insert_or_replace r t)) = insert (user_id r) (set (map user_id t))"
    by (rule ids_insert_or_replace)
  with Cons show ?case by auto
qed

lemma by_id_insert_or_replace:
  "by_id (insert_or_replace r t) = (by_id t)(user_id r \<mapsto> r)"
  by (induction t) (auto simp: fun_eq_iff)

lemma by_id_foldl:
  "by_id (foldl (\<lambda>t u. insert_or_replace (row_of u) t) t us) =
   by_id t ++ map_of (rev (map (\<lambda>u. (user_id (row_of u), row_of u)) us))"
proof (induction us arbitrary: t)
  case Nil
  then show ?case by simp
next
  case (Cons u us)
  show ?case
    by (simp add: Cons by_id_insert_or_replace map_add_upd [symmetric] del: map_add_upd)
       (simp add: fun_eq_iff map_add_def split: option.splits)
qed

lemma sorted_foldl:
  "sorted_wrt (<) (map user_id t) \<Longrightarrow>
   sorted_wrt (<) (map user_id (foldl (\<lambda>t u. insert_or_replace (row_of u) t) t us))"
  by (induction us arbitrary: t) (simp_all add: sorted_insert_or_replace)

lemma ids_foldl:
  "set (map user_id (foldl (\<lambda>t u. insert_or_replace (row_of u) t) t us)) =
   set (map user_id t) \<union> set (map (\<lambda>u. user_id (row_of u)) us)"
  by (induction us arbitrary: t) (simp_all add: ids_insert_or_replace del: set_map)

lemma fetch_well_formed:
  assumes "list_all well_formed us"
  shows "fetch_and_store_data P (ok (JArr us)) d =
           (Inr (length us), Some (foldl (\<lambda>t u. insert_or_replace (row_of u) t) [] us))"
  by (simp add: fetch_and_store_data_def insert_users_well_formed [OF assms])

lemma stored_rows:
  fixes us :: "json list"
  defines "t \<equiv> foldl (\<lambda>t u. insert_or_replace (row_of u) t) [] us"
  shows stored_sorted: "sorted_wrt (<) (map user_id t)"
    and stored_distinct: "distinct (map user_id t)"
    and stored_ids: "set (map user_id t) = (\<lambda>u. user_id (row_of u)) ` set us"
    and stored_by_id: "by_id t = map_of (rev (map (\<lambda>u. (user_id (row_of u), row_of u)) us))"
proof -
  show s: "sorted_wrt (<) (map user_id t)"
    unfolding t_def by (rule sorted_foldl) simp
  then show "distinct (map user_id t)"
    by (simp add: strict_sorted_iff)
  show "set (map user_id t) = (\<lambda>u. user_id (row_of u)) ` set us"
    unfolding t_def ids_foldl by simp
  show "by_id t = map_of (rev (map (\<lambda>u. (user_id (row_of u), row_of u)) us))"
    unfolding t_def by_id_foldl by simp
qed

lemma rows_of_distinct:
  assumes "distinct (map user_id t)"
    and "distinct (map (\<lambda>u. user_id (row_of u)) us)"
    and "by_id t = map_of (rev (map (\<lambda>u. (user_id (row_of u), row_of u)) us))"
  shows "set t = row_of ` set us"
proof -
  let ?kt = "map (\<lambda>r. (user_id r, r)) t"
  let ?ku = "rev (map (\<lambda>u. (user_id (row_of u), row_of u)) us)"
  have dt: "distinct (map fst ?kt)"
    using assms(1) by (simp add: comp_def)
  have du: "distinct (map fst ?ku)"
    using assms(2) by (simp add: comp_def rev_map [symmetric])
  have "set ?kt = set ?ku"
  proof (rule set_eqI)
    fix p :: "int \<times> user"
    obtain k r where p: "p = (k, r)" by (cases p)
    have "p \<in> set ?kt \<longleftrightarrow> map_of ?kt k = Some r"
      unfolding p using dt by (rule map_of_eq_Some_iff [symmetric])
    also have "\<dots> \<longleftrightarrow> map_of ?ku k = Some r"
      by (simp only: assms(3))
    also have "\<dots> \<longleftrightarrow> p \<in> set ?ku"
      unfolding p using du by (rule map_of_eq_Some_iff)
    finally show "p \<in> set ?kt \<longleftrightarrow> p \<in> set ?ku" .
  qed
  then have "snd ` set ?kt = snd ` set ?ku" by simp
  then show ?thesis by (simp add: image_image)
qed

lemma length_of_distinct:
  assumes "distinct (map user_id t)"
    and "distinct (map (\<lambda>u. user_id (row_of u)) us)"
    and "set (map user_id t) = (\<lambda>u. user_id (row_of u)) ` set us"
  shows "length t = length us"
proof -
  have "card (set (map user_id t)) = length (map user_id t)"
    using assms(1) by (rule distinct_card)
  moreover have "card (set (map (\<lambda>u. user_id (row_of u)) us)) =
      length (map (\<lambda>u. user_id (row_of u)) us)"
    using assms(2) by (rule distinct_card)
  moreover have "set (map (\<lambda>u. user_id (row_of u)) us) = (\<lambda>u. user_id (row_of u)) ` set us"
    by simp
  ultimately show ?thesis
    by (simp only: assms(3) length_map)
qed

lemma last_with_id_stored:
  assumes "by_id t = map_of (rev (map (\<lambda>u. (user_id (row_of u), row_of u)) us))"
    and "us = pre @ u # suf"
    and "user_id (row_of u) \<notin> (\<lambda>v. user_id (row_of v)) ` set suf"
  shows "row_of u \<in> set t"
proof -
  let ?k = "\<lambda>u. (user_id (row_of u), row_of u)"
  have "map_of (rev (map ?k suf)) (user_id (row_of u)) = None"
    using assms(3) by (simp add: map_of_eq_None_iff image_image)
  then have "map_of (rev (map ?k us)) (user_id (row_of u)) = Some (row_of u)"
    unfolding assms(2) by (simp add: map_add_def)
  then have "by_id t (user_id (row_of u)) = Some (row_of u)"
    by (simp only: assms(1))
  then have "(user_id (row_of u), row_of u) \<in> set (map (\<lambda>r. (user_id r, r)) t)"
    by (rule map_of_SomeD)
  then show ?thesis by auto
qed

lemma reader_plain:
  "\<not> list_ex special s \<Longrightarrow> reader InField cur row (s @ rest) = reader InField (cur @ s) row rest"
  by (induction s arbitrary: cur) (auto simp: special_def line_break_def)

lemma reader_quoted:
  "reader InQuoted cur row (double_quotes s @ 34 # rest) = reader QuoteSeen (cur @ s) row rest"
  by (induction s arbitrary: cur) auto

lemma reader_field_comma:
  "reader FieldStart [] row (csv_field s @ 44 # rest) = reader FieldStart [] (row @ [s]) rest"
proof (cases "list_ex special s")
  case True
  then show ?thesis
    using reader_quoted [of "[]" row s "44 # rest"] by (simp add: csv_field_def line_break_def)
next
  case False
  show ?thesis
  proof (cases s)
    case Nil
    then show ?thesis by (simp add: csv_field_def line_break_def)
  next
    case (Cons c s')
    with False have "\<not> special c" "\<not> list_ex special s'" by simp_all
    then show ?thesis
      using False Cons reader_plain [of s' "[c]" row "44 # rest"]
      by (simp add: csv_field_def special_def line_break_def)
  qed
qed

lemma reader_field_break:
  assumes "line_break b"
  shows "reader FieldStart [] row (csv_field s @ b # rest) =
           (row @ [s]) # reader RecordStart [] [] rest"
proof (cases "list_ex special s")
  case True
  then show ?thesis
    using assms reader_quoted [of "[]" row s "b # rest"]
    by (auto simp: csv_field_def line_break_def)
next
  case False
  show ?thesis
  proof (cases s)
    case Nil
    then show ?thesis using assms by (simp add: csv_field_def)
  next
    case (Cons c s')
    with False have "\<not> special c" "\<not> list_ex special s'" by simp_all
    then show ?thesis
      using assms False Cons reader_plain [of s' "[c]" row "b # rest"]
      by (auto simp: csv_field_def special_def line_break_def)
  qed
qed

lemma reader_fields:
  assumes "line_break b"
  shows "fs \<noteq> [] \<Longrightarrow> reader FieldStart [] row (csv_fields fs @ b # rest) =
           (row @ fs) # reader RecordStart [] [] rest"
proof (induction fs arbitrary: row rule: csv_fields.induct)
  case 1
  then show ?case by simp
next
  case (2 f)
  then show ?case by (simp add: reader_field_break [OF assms])
next
  case (3 f g gs)
  then show ?case by (simp add: reader_field_comma)
qed

lemma reader_start_is_field_start:
  "f \<noteq> [] \<Longrightarrow> reader RecordStart cur row (csv_field f @ rest) =
     reader FieldStart [] [] (csv_field f @ rest)"
  by (cases f) (auto simp: csv_field_def special_def line_break_def)

lemma reader_start_comma:
  "reader RecordStart cur row (csv_field f @ 44 # rest) =
     reader FieldStart [] [] (csv_field f @ 44 # rest)"
  by (cases f) (auto simp: csv_field_def special_def line_break_def)

lemma reader_breaks:
  "list_all line_break bs \<Longrightarrow> reader RecordStart cur row (bs @ rest) = reader RecordStart [] [] rest"
proof (induction bs arbitrary: cur row)
  case Nil
  show ?case by (cases rest) simp_all
next
  case (Cons b bs)
  then show ?case by simp
qed

lemma reader_row:
  assumes "line_break b" and "list_all line_break bs" and "fs \<noteq> []"
  shows "reader RecordStart [] [] (csv_row (b # bs) fs @ rest) = fs # reader RecordStart [] [] rest"
proof (cases "fs = [[]]")
  case True
  then show ?thesis
    using assms reader_breaks [of bs "[]" "[]" rest]
    by (auto simp: csv_row_def line_break_def)
next
  case False
  from assms(3) obtain f gs where fs: "fs = f # gs" by (cases fs) auto
  have start: "reader RecordStart [] [] (csv_fields fs @ b # bs @ rest) =
      reader FieldStart [] [] (csv_fields fs @ b # bs @ rest)"
  proof (cases gs)
    case Nil
    with False fs have "f \<noteq> []" by simp
    then show ?thesis using fs Nil by (simp add: reader_start_is_field_start)
  next
    case (Cons g hs)
    then show ?thesis using fs by (simp add: reader_start_comma)
  qed
  have "reader FieldStart [] [] (csv_fields fs @ b # bs @ rest) =
      ([] @ fs) # reader RecordStart [] [] (bs @ rest)"
    using assms(1,3) by (rule reader_fields)
  then show ?thesis
    using False start reader_breaks [OF assms(2), of "[]" "[]" rest] by (simp add: csv_row_def)
qed

lemma reader_rows:
  assumes "line_break b" and "list_all line_break bs"
  shows "list_all (\<lambda>fs. fs \<noteq> []) rows \<Longrightarrow>
         reader RecordStart [] [] (concat (map (csv_row (b # bs)) rows)) = rows"
  by (induction rows) (simp_all add: reader_row [OF assms])

lemma read_nat_append:
  "read_nat a (xs @ ys) = (case read_nat a xs of None \<Rightarrow> None | Some a' \<Rightarrow> read_nat a' ys)"
  by (induction xs arbitrary: a) simp_all

lemma read_nat_digits: "read_nat a (digits n) = Some (a * 10 ^ length (digits n) + n)"
proof (induction n arbitrary: a rule: digits.induct)
  case (1 n)
  show ?case
  proof (cases "n < 10")
    case True
    then show ?thesis by (simp add: digits.simps [of n] digit_def)
  next
    case False
    have d: "digit (48 + n mod 10)" by (simp add: digit_def)
    from False 1 [of a] d show ?thesis
      by (subst (1 2) digits.simps) (simp add: read_nat_append algebra_simps)
  qed
qed

lemma digits_head: "\<exists>c cs. digits n = c # cs \<and> c \<noteq> 45"
proof (induction n rule: digits.induct)
  case (1 n)
  show ?case
  proof (cases "n < 10")
    case True
    then show ?thesis by (simp add: digits.simps [of n])
  next
    case False
    with 1 show ?thesis by (subst digits.simps) auto
  qed
qed

lemma read_int_decimal: "read_int (decimal i) = Some i"
proof (cases "i < 0")
  case True
  obtain c cs where "digits (nat (- i)) = c # cs" using digits_head by blast
  then show ?thesis
    using True read_nat_digits [of 0 "nat (- i)"] by (simp add: read_int_def decimal_def)
next
  case False
  obtain c cs where "digits (nat i) = c # cs" "c \<noteq> 45" using digits_head by blast
  then show ?thesis
    using False read_nat_digits [of 0 "nat i"] by (simp add: read_int_def decimal_def)
qed

lemma sample_records_well_formed:
  "well_formed leanne" "well_formed ervin" "well_formed ervin_again"
  by (simp_all add: leanne_def ervin_def ervin_again_def columns_def dict_get_def lit_def
      int64_def utf8_encodable_def)

lemma sample_record_ids:
  "user_id (row_of leanne) = 1" "user_id (row_of ervin) = 2" "user_id (row_of ervin_again) = 2"
  by (simp_all add: leanne_def ervin_def ervin_again_def dict_get_def lit_def)

lemma view_more_fields:
  "username (view P r) = username r" "phone (view P r) = phone r" "website (view P r) = website r"
  by (simp_all add: view_def user.defs)

lemma sample_cells:
  "cells (view sample_platform leanne_row) =
     [lit ''1'', lit ''Leanne Graham'', lit ''Bret'', lit ''a.b@Example.COM'', [], [],
      lit ''13'', lit ''example.com'']"
  "cells (view sample_platform nameless_row) = [lit ''3'', [], [], [], [], [], lit ''4'', []]"
proof -
  have dec: "decimal 1 = lit ''1''" "decimal 3 = lit ''3''" "decimal 4 = lit ''4''"
    "decimal 13 = lit ''13''"
    by (simp_all add: decimal_def digits.simps lit_def)
  have len: "name_length (view sample_platform leanne_row) = 13"
    "name_length (view sample_platform nameless_row) = 4"
    by (simp_all add: view_fields leanne_row_def nameless_row_def) (simp_all add: lit_def)
  have "lit ''a.b@Example.COM'' = lit ''a.b'' @ 64 # lit ''Example.COM''"
    and "64 \<notin> set (lit ''Example.COM'')"
    and "py_lower sample_platform (lit ''Example.COM'') = lit ''example.com''"
    by (simp_all add: py_lower_def ascii_lower_def lit_def)
  then have dom: "email_domain (view sample_platform leanne_row) = Some (lit ''example.com'')"
    by (simp add: view_domain_Some [of _ "lit ''a.b@Example.COM''"] leanne_row_def last_py_split
        del: py_split.simps)
  have nodom: "email_domain (view sample_platform nameless_row) = None"
    by (simp add: view_domain_None nameless_row_def)
  show "cells (view sample_platform leanne_row) =
     [lit ''1'', lit ''Leanne Graham'', lit ''Bret'', lit ''a.b@Example.COM'', [], [],
      lit ''13'', lit ''example.com'']"
    by (simp add: cells_def view_fields(1-3) view_more_fields len dom dec) (simp add: leanne_row_def dec)
  show "cells (view sample_platform nameless_row) = [lit ''3'', [], [], [], [], [], lit ''4'', []]"
    by (simp add: cells_def view_fields(1-3) view_more_fields len nodom dec)
       (simp add: nameless_row_def dec)
qed

section \<open>The claims\<close>

text \<open>
  Claim C1. A refresh that fetches a collection of well-formed User records with unique
  ids (the records of the data model) succeeds whatever the database held before, and
  afterwards the table holds exactly the rows of the fetched records: every row of the
  table is the row of a fetched record, every fetched record has its row, and no row of
  the earlier contents is left unless the fetch returned it again. Moreover no successful
  run, whatever it fetched, depends on the earlier contents: from any other database it
  returns the same count and leaves the same table.
\<close>

theorem refresh_replaces_snapshot:
  assumes "list_all well_formed us"
    and "distinct (map (\<lambda>u. user_id (row_of u)) us)"
  shows "\<exists>t. fetch_and_store_data P (ok (JArr us)) d = (Inr (length us), Some t) \<and>
           (\<forall>r. r \<in> set t \<longleftrightarrow> (\<exists>u \<in> set us. r = row_of u)) \<and>
           (\<forall>old. d = Some old \<longrightarrow> (\<forall>r \<in> set old. r \<notin> row_of ` set us \<longrightarrow> r \<notin> set t)) \<and>
           (\<forall>net n d1 d2. fst (fetch_and_store_data P net d1) = Inr n \<longrightarrow>
              fetch_and_store_data P net d2 = fetch_and_store_data P net d1)"
proof -
  let ?t = "foldl (\<lambda>t u. insert_or_replace (row_of u) t) [] us"
  have run: "fetch_and_store_data P (ok (JArr us)) d = (Inr (length us), Some ?t)"
    using assms(1) by (rule fetch_well_formed)
  have rows: "set ?t = row_of ` set us"
    using stored_distinct assms(2) stored_by_id by (rule rows_of_distinct)
  have "\<forall>r. r \<in> set ?t \<longleftrightarrow> (\<exists>u \<in> set us. r = row_of u)"
    unfolding rows by blast
  moreover have "\<forall>old. d = Some old \<longrightarrow> (\<forall>r \<in> set old. r \<notin> row_of ` set us \<longrightarrow> r \<notin> set ?t)"
    unfolding rows by blast
  moreover have "\<forall>net n d1 d2. fst (fetch_and_store_data P net d1) = Inr n \<longrightarrow>
      fetch_and_store_data P net d2 = fetch_and_store_data P net d1"
    by (auto simp: fetch_and_store_data_def split: option.splits sum.splits)
  ultimately show ?thesis
    using run by (intro exI [of _ ?t] conjI)
qed

theorem refresh_replaces_snapshot_witness:
  "list_all well_formed [ervin] \<and> distinct (map (\<lambda>u. user_id (row_of u)) [ervin]) \<and>
   leanne_row \<in> set [leanne_row, ervin_row, nameless_row] \<and>
   (\<exists>t. fetch_and_store_data sample_platform (ok (JArr [ervin]))
          (Some [leanne_row, ervin_row, nameless_row]) = (Inr 1, Some t) \<and>
        set t = {row_of ervin} \<and> leanne_row \<notin> set t)"
proof -
  have wf: "list_all well_formed [ervin]"
    by (simp add: sample_records_well_formed)
  have di: "distinct (map (\<lambda>u. user_id (row_of u)) [ervin])"
    by simp
  have other: "leanne_row \<notin> row_of ` set [ervin]"
    by (simp add: leanne_row_def ervin_def dict_get_def lit_def)
  from refresh_replaces_snapshot [OF wf di, of sample_platform "Some [leanne_row, ervin_row, nameless_row]"]
  obtain t where run: "fetch_and_store_data sample_platform (ok (JArr [ervin]))
        (Some [leanne_row, ervin_row, nameless_row]) = (Inr (length [ervin]), Some t)"
    and rows: "\<forall>r. r \<in> set t \<longleftrightarrow> (\<exists>u \<in> set [ervin]. r = row_of u)"
    and left: "\<forall>old. Some [leanne_row, ervin_row, nameless_row] = Some old \<longrightarrow>
        (\<forall>r \<in> set old. r \<notin> row_of ` set [ervin] \<longrightarrow> r \<notin> set t)"
    by (elim exE conjE) (rule that)
  from rows have "set t = {row_of ervin}" by auto
  moreover from left other have "leanne_row \<notin> set t" by simp
  moreover from run have "fetch_and_store_data sample_platform (ok (JArr [ervin]))
        (Some [leanne_row, ervin_row, nameless_row]) = (Inr 1, Some t)" by simp
  ultimately show ?thesis using wf di by auto
qed

text \<open>
  Claim C2. When the answer has status 200 and its body parses to a sequence of \<open>N\<close>
  well-formed User records with unique ids, the refresh returns \<open>N\<close> and the table
  afterwards has \<open>N\<close> rows, which are the rows of the fetched records field for field
  (\<open>id\<close>, \<open>name\<close>, \<open>username\<close>, \<open>email\<close>, \<open>phone\<close>, \<open>website\<close>), in ascending \<open>id\<close>.
\<close>

theorem refresh_writes_fetched_records:
  assumes "list_all well_formed us"
    and "distinct (map (\<lambda>u. user_id (row_of u)) us)"
  shows "\<exists>t. fetch_and_store_data P (ok (JArr us)) d = (Inr (length us), Some t) \<and>
           length t = length us \<and> set t = row_of ` set us \<and>
           sorted_wrt (<) (map user_id t)"
proof -
  let ?t = "foldl (\<lambda>t u. insert_or_replace (row_of u) t) [] us"
  have "fetch_and_store_data P (ok (JArr us)) d = (Inr (length us), Some ?t)"
    using assms(1) by (rule fetch_well_formed)
  moreover have "length ?t = length us"
    using stored_distinct assms(2) stored_ids by (rule length_of_distinct)
  moreover have "set ?t = row_of ` set us"
    using stored_distinct assms(2) stored_by_id by (rule rows_of_distinct)
  moreover have "sorted_wrt (<) (map user_id ?t)"
    by (rule stored_sorted)
  ultimately show ?thesis by (intro exI [of _ ?t] conjI)
qed

theorem refresh_writes_fetched_records_witness:
  "list_all well_formed [ervin, leanne] \<and>
   distinct (map (\<lambda>u. user_id (row_of u)) [ervin, leanne]) \<and>
   (\<exists>t. fetch_and_store_data sample_platform (ok (JArr [ervin, leanne])) None = (Inr 2, Some t) \<and>
        length t = 2 \<and> set t = {leanne_row, ervin_row})"
proof -
  have wf: "list_all well_formed [ervin, leanne]"
    by (simp add: sample_records_well_formed)
  have di: "distinct (map (\<lambda>u. user_id (row_of u)) [ervin, leanne])"
    by (simp add: sample_record_ids)
  have rows: "row_of ervin = ervin_row" "row_of leanne = leanne_row"
    by (simp_all add: ervin_def leanne_def ervin_row_def leanne_row_def dict_get_def lit_def)
  from refresh_writes_fetched_records [OF wf di, of sample_platform None]
  obtain t where "fetch_and_store_data sample_platform (ok (JArr [ervin, leanne])) None =
        (Inr (length [ervin, leanne]), Some t)"
    and "length t = length [ervin, leanne]" and "set t = row_of ` set [ervin, leanne]"
    by (elim exE conjE) (rule that)
  then have "fetch_and_store_data sample_platform (ok (JArr [ervin, leanne])) None = (Inr 2, Some t) \<and>
      length t = 2 \<and> set t = {leanne_row, ervin_row}"
    by (auto simp: rows)
  then show ?thesis using wf di by blast
qed

text \<open>
  Claim C3. When the answer's status is not 200 (500, say), the refresh fails on the
  path that reports the status code, and the database afterwards is the database before:
  nothing is written.
\<close>

theorem remote_fetch_error_no_write:
  assumes "status_code resp \<noteq> 200"
  shows "fetch_and_store_data P (Some resp) d = (Inl (RemoteFetchError (status_code resp)), d)"
  using assms by (simp add: fetch_and_store_data_def)

theorem remote_fetch_error_no_write_witness:
  "status_code \<lparr>status_code = 500, json_body = Some (JArr [leanne])\<rparr> \<noteq> 200 \<and>
   fetch_and_store_data sample_platform
     (Some \<lparr>status_code = 500, json_body = Some (JArr [leanne])\<rparr>) (Some [ervin_row]) =
   (Inl (RemoteFetchError 500), Some [ervin_row])"
  using remote_fetch_error_no_write
    [of "\<lparr>status_code = 500, json_body = Some (JArr [leanne])\<rparr>" sample_platform
        "Some [ervin_row]"]
  by simp

text \<open>
  Claim C4. Loading when the table \<open>users\<close> does not exist fails with \<open>NoDataError\<close> and
  leaves the database as it was; and this is the only failure of loading: whenever
  \<open>load_data\<close> raises, the table is missing and the exception is \<open>NoDataError\<close>.
\<close>

theorem load_missing_table:
  "load_data P None = (Inl NoDataError, None) \<and>
   (\<forall>d e. fst (load_data P d) = Inl e \<longrightarrow> d = None \<and> e = NoDataError)"
proof -
  have "fst (load_data P d) = Inl e \<longrightarrow> d = None \<and> e = NoDataError" for d e
    by (cases d) (auto simp: load_data_Some, simp add: load_data_def)
  then show ?thesis by (simp add: load_data_def)
qed

theorem load_missing_table_witness:
  "fst (load_data sample_platform None) = Inl NoDataError \<and>
   load_data sample_platform None = (Inl NoDataError, None) \<and>
   fst (load_data sample_platform (Some [leanne_row])) \<noteq> Inl IndexError"
  using load_missing_table [of sample_platform] by auto



text \<open>
  Claim C6. For every row of the table, \<open>name_length\<close> is the number of characters of
  \<open>name\<close>; a missing name is first turned into the four characters \<open>None\<close>, so its
  \<open>name_length\<close> is 4. In particular \<open>Leanne Graham\<close> gives 13.
\<close>

theorem name_length_counts_characters:
  assumes "i < length t"
  shows "\<exists>v. load_data P (Some t) = (Inr v, Some t) \<and> length v = length t \<and>
           name (v ! i) = name (t ! i) \<and>
           (\<forall>s. name (t ! i) = Some s \<longrightarrow> name_length (v ! i) = length s) \<and>
           (name (t ! i) = None \<longrightarrow>
              name_length (v ! i) = length (lit ''None'') \<and> name_length (v ! i) = 4) \<and>
           (name (t ! i) = Some (lit ''Leanne Graham'') \<longrightarrow> name_length (v ! i) = 13)"
proof -
  let ?v = "map (view P) t"
  have "load_data P (Some t) = (Inr ?v, Some t)"
    by (rule load_data_Some)
  moreover have "length ?v = length t" by simp
  moreover have "name (?v ! i) = name (t ! i)"
    using assms by (simp add: view_fields)
  moreover have "\<forall>s. name (t ! i) = Some s \<longrightarrow> name_length (?v ! i) = length s"
    using assms by (simp add: view_fields)
  moreover have "name (t ! i) = None \<longrightarrow>
      name_length (?v ! i) = length (lit ''None'') \<and> name_length (?v ! i) = 4"
    using assms by (simp add: view_fields) (simp add: lit_def)
  moreover have "name (t ! i) = Some (lit ''Leanne Graham'') \<longrightarrow> name_length (?v ! i) = 13"
    using assms by (simp add: view_fields) (simp add: lit_def)
  ultimately show ?thesis by (intro exI [of _ ?v] conjI)
qed

theorem name_length_counts_characters_witness:
  "0 < length [leanne_row, nameless_row] \<and> 1 < length [leanne_row, nameless_row] \<and>
   (\<exists>v. load_data sample_platform (Some [leanne_row, nameless_row]) =
          (Inr v, Some [leanne_row, nameless_row]) \<and>
        name_length (v ! 0) = 13 \<and> name_length (v ! 1) = 4)"
proof -
  have l0: "0 < length [leanne_row, nameless_row]" and l1: "1 < length [leanne_row, nameless_row]"
    by simp_all
  from name_length_counts_characters [OF l0, of sample_platform]
  obtain v where v: "load_data sample_platform (Some [leanne_row, nameless_row]) =
        (Inr v, Some [leanne_row, nameless_row])"
    and "name ([leanne_row, nameless_row] ! 0) = Some (lit ''Leanne Graham'') \<longrightarrow>
        name_length (v ! 0) = 13"
    by (elim exE conjE) (rule that)
  then have n0: "name_length (v ! 0) = 13"
    by (simp add: leanne_row_def)
  from name_length_counts_characters [OF l1, of sample_platform]
  obtain w where w: "load_data sample_platform (Some [leanne_row, nameless_row]) =
        (Inr w, Some [leanne_row, nameless_row])"
    and "name ([leanne_row, nameless_row] ! 1) = None \<longrightarrow>
        name_length (w ! 1) = length (lit ''None'') \<and> name_length (w ! 1) = 4"
    by (elim exE conjE) (rule that)
  then have "name_length (w ! 1) = 4"
    by (simp add: nameless_row_def)
  moreover from v w have "w = v" by simp
  ultimately show ?thesis using v n0 by auto
qed

text \<open>
  Claim C7. Writing the rows of a derived view as comma-separated text and reading the
  text back gives the header and then, record for record, the cells of the rows; so the
  \<open>(id, name, email, name_length, email_domain)\<close> tuples read back are those of the view,
  in the same order, a missing text value being read as the empty text. That is the only
  loss: two optional texts are written alike only if they are equal or one is missing and
  the other empty.
\<close>

theorem csv_round_trip:
  assumes "linesep P = [10] \<or> linesep P = [13, 10]"
  shows "read_csv (to_csv P v) = header # map cells v \<and>
         map read_tuple (tl (read_csv (to_csv P v))) =
           map (\<lambda>r. Some (user_id r, na_rep (name r), na_rep (email r),
                            int (name_length r), na_rep (email_domain r))) v \<and>
         (\<forall>a b. na_rep a = na_rep b \<longleftrightarrow>
            a = b \<or> (a = None \<and> b = Some []) \<or> (a = Some [] \<and> b = None))"
proof -
  from assms obtain b bs where nl: "linesep P = b # bs" "line_break b" "list_all line_break bs"
    by (auto simp: line_break_def)
  have "list_all (\<lambda>fs. fs \<noteq> []) (header # map cells v)"
    by (simp add: header_def columns_def cells_def list_all_iff)
  with nl have rt: "read_csv (to_csv P v) = header # map cells v"
    by (simp add: read_csv_def to_csv_def reader_rows del: list.map)
  have "read_tuple (cells r) = Some (user_id r, na_rep (name r), na_rep (email r),
      int (name_length r), na_rep (email_domain r))" for r :: view_row
    by (simp add: cells_def read_int_decimal)
  then have "map read_tuple (tl (read_csv (to_csv P v))) =
      map (\<lambda>r. Some (user_id r, na_rep (name r), na_rep (email r),
                       int (name_length r), na_rep (email_domain r))) v"
    by (simp add: rt)
  moreover have "na_rep a = na_rep b \<longleftrightarrow>
      a = b \<or> (a = None \<and> b = Some []) \<or> (a = Some [] \<and> b = None)" for a b
    by (cases a; cases b) auto
  ultimately show ?thesis using rt by blast
qed

theorem csv_round_trip_witness:
  "(linesep sample_platform = [10] \<or> linesep sample_platform = [13, 10]) \<and>
   read_csv (to_csv sample_platform (map (view sample_platform) [leanne_row, nameless_row])) =
     [header,
      [lit ''1'', lit ''Leanne Graham'', lit ''Bret'', lit ''a.b@Example.COM'', [], [],
       lit ''13'', lit ''example.com''],
      [lit ''3'', [], [], [], [], [], lit ''4'', []]]"
proof -
  have nl: "linesep sample_platform = [10] \<or> linesep sample_platform = [13, 10]"
    by (simp add: sample_platform_def)
  from csv_round_trip [OF nl, of "map (view sample_platform) [leanne_row, nameless_row]"]
  have "read_csv (to_csv sample_platform (map (view sample_platform) [leanne_row, nameless_row])) =
      header # map cells (map (view sample_platform) [leanne_row, nameless_row])"
    by (rule conjunct1)
  then show ?thesis
    using nl by (simp add: sample_cells)
qed




text \<open>
  Claim C9. When the fetched records are well-formed but two or more of them have the
  same \<open>id\<close>, the refresh still succeeds (it returns the number of fetched records), and
  the table afterwards has one row for each \<open>id\<close> that was fetched: the ids of its rows
  are distinct, they are the fetched ids, and the row of every record that no later
  record of the same \<open>id\<close> follows is in the table.
\<close>

theorem duplicate_ids_last_wins:
  assumes "list_all well_formed us"
  shows "\<exists>t. fetch_and_store_data P (ok (JArr us)) d = (Inr (length us), Some t) \<and>
           distinct (map user_id t) \<and>
           set (map user_id t) = (\<lambda>u. user_id (row_of u)) ` set us \<and>
           (\<forall>pre u suf. us = pre @ u # suf \<and>
                user_id (row_of u) \<notin> (\<lambda>v. user_id (row_of v)) ` set suf \<longrightarrow>
                row_of u \<in> set t)"
proof -
  let ?t = "foldl (\<lambda>t u. insert_or_replace (row_of u) t) [] us"
  have "fetch_and_store_data P (ok (JArr us)) d = (Inr (length us), Some ?t)"
    using assms by (rule fetch_well_formed)
  moreover have "distinct (map user_id ?t)"
    by (rule stored_distinct)
  moreover have "set (map user_id ?t) = (\<lambda>u. user_id (row_of u)) ` set us"
    by (rule stored_ids)
  moreover have "\<forall>pre u suf. us = pre @ u # suf \<and>
      user_id (row_of u) \<notin> (\<lambda>v. user_id (row_of v)) ` set suf \<longrightarrow> row_of u \<in> set ?t"
    using last_with_id_stored [OF stored_by_id] by blast
  ultimately show ?thesis by (intro exI [of _ ?t] conjI)
qed

theorem duplicate_ids_last_wins_witness:
  "list_all well_formed [ervin, leanne, ervin_again] \<and>
   user_id (row_of ervin) = user_id (row_of ervin_again) \<and>
   (\<exists>t. fetch_and_store_data sample_platform (ok (JArr [ervin, leanne, ervin_again])) None =
          (Inr 3, Some t) \<and>
        distinct (map user_id t) \<and> set (map user_id t) = {1, 2} \<and>
        row_of ervin_again \<in> set t \<and> row_of leanne \<in> set t)"
proof -
  have wf: "list_all well_formed [ervin, leanne, ervin_again]"
    by (simp add: sample_records_well_formed)
  from duplicate_ids_last_wins [OF wf, of sample_platform None]
  obtain t where run: "fetch_and_store_data sample_platform
        (ok (JArr [ervin, leanne, ervin_again])) None =
        (Inr (length [ervin, leanne, ervin_again]), Some t)"
    and di: "distinct (map user_id t)"
    and ids: "set (map user_id t) =
        (\<lambda>u. user_id (row_of u)) ` set [ervin, leanne, ervin_again]"
    and lst: "\<forall>pre u suf. [ervin, leanne, ervin_again] = pre @ u # suf \<and>
        user_id (row_of u) \<notin> (\<lambda>v. user_id (row_of v)) ` set suf \<longrightarrow> row_of u \<in> set t"
    by (elim exE conjE) (rule that)
  from lst [rule_format, of "[ervin, leanne]" ervin_again "[]"]
  have a: "row_of ervin_again \<in> set t" by simp
  from lst [rule_format, of "[ervin]" leanne "[ervin_again]"]
  have b: "row_of leanne \<in> set t" by (simp add: sample_record_ids)
  from ids have c: "set (map user_id t) = {1, 2}"
    by (auto simp: sample_record_ids)
  from run have "fetch_and_store_data sample_platform
        (ok (JArr [ervin, leanne, ervin_again])) None = (Inr 3, Some t)" by simp
  then show ?thesis using wf di a b c by (auto simp: sample_record_ids)
qed

text \<open>
  Claim C10. For a row whose \<open>email\<close> is a string that ends in \<open>@\<close> (code point 64),
  such as \<open>user@\<close>, \<open>email_domain\<close> is the empty string and not null; \<open>email_domain\<close> is
  null exactly when \<open>email\<close> is missing or has no \<open>@\<close> in it.
\<close>

theorem email_ending_in_at_gives_empty_domain:
  assumes "i < length t"
  shows "\<exists>v. load_data P (Some t) = (Inr v, Some t) \<and> length v = length t \<and>
           (\<forall>pre. email (t ! i) = Some (pre @ [64]) \<longrightarrow> email_domain (v ! i) = Some []) \<and>
           (email (t ! i) = Some (lit ''user@'') \<longrightarrow> email_domain (v ! i) = Some (lit '''')) \<and>
           (email_domain (v ! i) = None \<longleftrightarrow>
              email (t ! i) = None \<or> (\<exists>e. email (t ! i) = Some e \<and> 64 \<notin> set e))"
proof -
  let ?v = "map (view P) t"
  have empty: "email_domain (view P r) = Some []" if "email r = Some (pre @ [64])" for r pre
    using that last_py_split [of 64 "[]" pre]
    by (simp add: view_domain_Some py_lower_def del: py_split.simps)
  have "load_data P (Some t) = (Inr ?v, Some t)"
    by (rule load_data_Some)
  moreover have "length ?v = length t" by simp
  moreover have "\<forall>pre. email (t ! i) = Some (pre @ [64]) \<longrightarrow> email_domain (?v ! i) = Some []"
    using assms empty by simp
  moreover have "email (t ! i) = Some (lit ''user@'') \<longrightarrow> email_domain (?v ! i) = Some (lit '''')"
    using assms empty [of "t ! i" "lit ''user''"] by (simp add: lit_def)
  moreover have "email_domain (?v ! i) = None \<longleftrightarrow>
      email (t ! i) = None \<or> (\<exists>e. email (t ! i) = Some e \<and> 64 \<notin> set e)"
    using assms by (cases "email (t ! i)") (simp_all add: view_domain_None view_domain_Some)
  ultimately show ?thesis by (intro exI [of _ ?v] conjI)
qed

theorem email_ending_in_at_gives_empty_domain_witness:
  "0 < length [ervin_row] \<and>
   (\<exists>v. load_data sample_platform (Some [ervin_row]) = (Inr v, Some [ervin_row]) \<and>
        email_domain (v ! 0) = Some [] \<and> email_domain (v ! 0) \<noteq> None)"
proof -
  have l0: "0 < length [ervin_row]" by simp
  from email_ending_in_at_gives_empty_domain [OF l0, of sample_platform]
  obtain v where v: "load_data sample_platform (Some [ervin_row]) = (Inr v, Some [ervin_row])"
    and "\<forall>pre. email ([ervin_row] ! 0) = Some (pre @ [64]) \<longrightarrow> email_domain (v ! 0) = Some []"
    by (elim exE conjE) (rule that)
  from this(2) [rule_format, of "lit ''user''"] have "email_domain (v ! 0) = Some []"
    by (simp add: ervin_row_def lit_def)
  then show ?thesis using v by auto
qed

end
